theory Spec2Isabelle
  imports Main "HOL-Library.Word" "HOL-Library.Multiset" "HOL-Library.List_Lexorder"
begin

unbundle bit_operations_syntax

section \<open>Values of the host language\<close>

text \<open>
  The repository is TypeScript running in a browser.  A string is a sequence of UTF-16 code
  units, a byte buffer (\<open>Uint8Array\<close>) a sequence of octets, and a number that takes part in
  a bitwise operator is first converted to a 32-bit integer.  Numbers are modelled as
  mathematical integers with that conversion written out at every operator, which is exact as
  long as the values stay below \<open>2 ^ 53\<close>.  Where a value can pass that bound (the seed and
  the index computation of the seeded shuffle) the rounding to a double is written out too.
\<close>

type_synonym codeunit = "16 word"
type_synonym jsstring = "codeunit list"
type_synonym byte = "8 word"

text \<open>An ASCII literal as a string of code units.\<close>

definition js :: "string \<Rightarrow> jsstring" where
  "js s = map (\<lambda>c. of_char c) s"

definition ToInt32 :: "int \<Rightarrow> int" where
  "ToInt32 v = (v + 2147483648) mod 4294967296 - 2147483648"

definition ToUint32 :: "int \<Rightarrow> int" where
  "ToUint32 v = v mod 4294967296"

text \<open>The operators \<open>&\<close>, \<open>|\<close>, \<open>^\<close>, \<open>~\<close>, \<open><<\<close>, \<open>>>\<close> and \<open>>>>\<close>.\<close>

definition js_and :: "int \<Rightarrow> int \<Rightarrow> int" where
  "js_and x y = ToInt32 x AND ToInt32 y"

definition js_or :: "int \<Rightarrow> int \<Rightarrow> int" where
  "js_or x y = ToInt32 x OR ToInt32 y"

definition js_xor :: "int \<Rightarrow> int \<Rightarrow> int" where
  "js_xor x y = ToInt32 x XOR ToInt32 y"

definition js_not :: "int \<Rightarrow> int" where
  "js_not x = - ToInt32 x - 1"

definition js_shl :: "int \<Rightarrow> nat \<Rightarrow> int" where
  "js_shl x n = ToInt32 (ToInt32 x * 2 ^ (n mod 32))"

definition js_sar :: "int \<Rightarrow> nat \<Rightarrow> int" where
  "js_sar x n = ToInt32 x div 2 ^ (n mod 32)"

definition js_shr :: "int \<Rightarrow> nat \<Rightarrow> int" where
  "js_shr x n = ToUint32 x div 2 ^ (n mod 32)"

subsection \<open>Strings as code points, and their UTF-8 encoding\<close>

definition is_high_surrogate :: "codeunit \<Rightarrow> bool" where
  "is_high_surrogate u = (0xD800 \<le> unat u \<and> unat u \<le> 0xDBFF)"

definition is_low_surrogate :: "codeunit \<Rightarrow> bool" where
  "is_low_surrogate u = (0xDC00 \<le> unat u \<and> unat u \<le> 0xDFFF)"

text \<open>
  \<open>TextEncoder.encode\<close> reads its argument as a sequence of scalar values: a high surrogate
  followed by a low one is one supplementary code point, any other surrogate is replaced by
  U+FFFD.
\<close>

fun code_points :: "jsstring \<Rightarrow> nat list" where
  "code_points [] = []"
| "code_points [u] =
     (if is_high_surrogate u \<or> is_low_surrogate u then [0xFFFD] else [unat u])"
| "code_points (u # v # rest) =
     (if is_high_surrogate u \<and> is_low_surrogate v
      then (0x10000 + (unat u - 0xD800) * 0x400 + (unat v - 0xDC00)) # code_points rest
      else if is_high_surrogate u \<or> is_low_surrogate u then 0xFFFD # code_points (v # rest)
      else unat u # code_points (v # rest))"

definition utf8_encode_cp :: "nat \<Rightarrow> byte list" where
  "utf8_encode_cp cp =
     (if cp < 0x80 then [of_nat cp]
      else if cp < 0x800 then [of_nat (0xC0 + cp div 64), of_nat (0x80 + cp mod 64)]
      else if cp < 0x10000 then
        [of_nat (0xE0 + cp div 4096), of_nat (0x80 + (cp div 64) mod 64),
         of_nat (0x80 + cp mod 64)]
      else
        [of_nat (0xF0 + cp div 262144), of_nat (0x80 + (cp div 4096) mod 64),
         of_nat (0x80 + (cp div 64) mod 64), of_nat (0x80 + cp mod 64)])"

definition TextEncoder_encode :: "jsstring \<Rightarrow> byte list" where
  "TextEncoder_encode s = concat (map utf8_encode_cp (code_points s))"

section \<open>The hash library: MD5 (utils.ts)\<close>

definition md5_safe_add :: "int \<Rightarrow> int \<Rightarrow> int" where
  "md5_safe_add x y =
     (let lsw = js_and x 0xFFFF + js_and y 0xFFFF;
          msw = js_sar x 16 + js_sar y 16 + js_sar lsw 16
      in js_or (js_shl msw 16) (js_and lsw 0xFFFF))"

definition md5_bit_rol :: "int \<Rightarrow> nat \<Rightarrow> int" where
  "md5_bit_rol num cnt = js_or (js_shl num cnt) (js_shr num (32 - cnt))"

definition md5_cmn :: "int \<Rightarrow> int \<Rightarrow> int \<Rightarrow> int \<Rightarrow> nat \<Rightarrow> int \<Rightarrow> int" where
  "md5_cmn q a b x s t =
     md5_safe_add (md5_bit_rol (md5_safe_add (md5_safe_add a q) (md5_safe_add x t)) s) b"

definition md5_ff :: "int \<Rightarrow> int \<Rightarrow> int \<Rightarrow> int \<Rightarrow> int \<Rightarrow> nat \<Rightarrow> int \<Rightarrow> int" where
  "md5_ff a b c d x s t = md5_cmn (js_or (js_and b c) (js_and (js_not b) d)) a b x s t"

definition md5_gg :: "int \<Rightarrow> int \<Rightarrow> int \<Rightarrow> int \<Rightarrow> int \<Rightarrow> nat \<Rightarrow> int \<Rightarrow> int" where
  "md5_gg a b c d x s t = md5_cmn (js_or (js_and b d) (js_and c (js_not d))) a b x s t"

definition md5_hh :: "int \<Rightarrow> int \<Rightarrow> int \<Rightarrow> int \<Rightarrow> int \<Rightarrow> nat \<Rightarrow> int \<Rightarrow> int" where
  "md5_hh a b c d x s t = md5_cmn (js_xor (js_xor b c) d) a b x s t"

definition md5_ii :: "int \<Rightarrow> int \<Rightarrow> int \<Rightarrow> int \<Rightarrow> int \<Rightarrow> nat \<Rightarrow> int \<Rightarrow> int" where
  "md5_ii a b c d x s t = md5_cmn (js_xor c (js_or b (js_not d))) a b x s t"

text \<open>
  The word array \<open>x\<close> is a sparse JavaScript array.  Every element that \<open>core_md5\<close> reads
  goes through a bitwise operator, which turns \<open>undefined\<close> (a hole, or an index past the
  end) into 0; a write past the end extends the array.
\<close>

definition word_at :: "int list \<Rightarrow> nat \<Rightarrow> int" where
  "word_at x i = (if i < length x then x ! i else 0)"

definition word_put :: "int list \<Rightarrow> nat \<Rightarrow> int \<Rightarrow> int list" where
  "word_put x i v =
     (if i < length x then x[i := v] else x @ replicate (i - length x) 0 @ [v])"

text \<open>
  The body of the block loop is 64 assignments in four rounds; the assigned variable cycles
  through \<open>a, d, c, b\<close> and the arguments are the four variables rotated accordingly.  The
  table lists, in the order of the source, the round function, the offset into \<open>x\<close>, the
  shift and the additive constant of each assignment; \<open>md5_step\<close> performs one assignment on
  the quadruple kept in rotated order, so that after every fourth step it is \<open>(a, b, c, d)\<close>
  again.
\<close>

datatype md5_round = FF | GG | HH | II

fun md5_apply ::
  "md5_round \<Rightarrow> int \<Rightarrow> int \<Rightarrow> int \<Rightarrow> int \<Rightarrow> int \<Rightarrow> nat \<Rightarrow> int \<Rightarrow> int" where
  "md5_apply FF a b c d x s t = md5_ff a b c d x s t"
| "md5_apply GG a b c d x s t = md5_gg a b c d x s t"
| "md5_apply HH a b c d x s t = md5_hh a b c d x s t"
| "md5_apply II a b c d x s t = md5_ii a b c d x s t"

definition md5_ops :: "(md5_round \<times> nat \<times> nat \<times> int) list" where
  "md5_ops =
   [(FF, 0, 7, - 680876936), (FF, 1, 12, - 389564586), (FF, 2, 17, 606105819), (FF, 3, 22, - 1044525330),
    (FF, 4, 7, - 176418897), (FF, 5, 12, 1200080426), (FF, 6, 17, - 1473231341), (FF, 7, 22, - 45705983),
    (FF, 8, 7, 1770035416), (FF, 9, 12, - 1958414417), (FF, 10, 17, - 42063), (FF, 11, 22, - 1990404162),
    (FF, 12, 7, 1804603682), (FF, 13, 12, - 40341101), (FF, 14, 17, - 1502002290), (FF, 15, 22, 1236535329),
    (GG, 1, 5, - 165796510), (GG, 6, 9, - 1069501632), (GG, 11, 14, 643717713), (GG, 0, 20, - 373897302),
    (GG, 5, 5, - 701558691), (GG, 10, 9, 38016083), (GG, 15, 14, - 660478335), (GG, 4, 20, - 405537848),
    (GG, 9, 5, 568446438), (GG, 14, 9, - 1019803690), (GG, 3, 14, - 187363961), (GG, 8, 20, 1163531501),
    (GG, 13, 5, - 1444681467), (GG, 2, 9, - 51403784), (GG, 7, 14, 1735328473), (GG, 12, 20, - 1926607734),
    (HH, 5, 4, - 378558), (HH, 8, 11, - 2022574463), (HH, 11, 16, 1839030562), (HH, 14, 23, - 35309556),
    (HH, 1, 4, - 1530992060), (HH, 4, 11, 1272893353), (HH, 7, 16, - 155497632), (HH, 10, 23, - 1094730640),
    (HH, 13, 4, 681279174), (HH, 0, 11, - 358537222), (HH, 3, 16, - 722521979), (HH, 6, 23, 76029189),
    (HH, 9, 4, - 640364487), (HH, 12, 11, - 421815835), (HH, 15, 16, 530742520), (HH, 2, 23, - 995338651),
    (II, 0, 6, - 198630844), (II, 7, 10, 1126891415), (II, 14, 15, - 1416354905), (II, 5, 21, - 57434055),
    (II, 12, 6, 1700485571), (II, 3, 10, - 1894986606), (II, 10, 15, - 1051523), (II, 1, 21, - 2054922799),
    (II, 8, 6, 1873313359), (II, 15, 10, - 30611744), (II, 6, 15, - 1560198380), (II, 13, 21, 1309151649),
    (II, 4, 6, - 145523070), (II, 11, 10, - 1120210379), (II, 2, 15, 718787259), (II, 9, 21, - 343485551)]"

fun md5_step :: "int list \<Rightarrow> nat \<Rightarrow> md5_round \<times> nat \<times> nat \<times> int \<Rightarrow>
    int \<times> int \<times> int \<times> int \<Rightarrow> int \<times> int \<times> int \<times> int" where
  "md5_step x i (r, k, s, t) (p, q, u, v) =
     (v, md5_apply r p q u v (word_at x (i + k)) s t, q, u)"

fun md5_block :: "int list \<Rightarrow> nat \<Rightarrow> int \<times> int \<times> int \<times> int \<Rightarrow> int \<times> int \<times> int \<times> int" where
  "md5_block x i (olda, oldb, oldc, oldd) =
     (case fold (md5_step x i) md5_ops (olda, oldb, oldc, oldd) of
        (a, b, c, d) \<Rightarrow>
          (md5_safe_add a olda, md5_safe_add b oldb, md5_safe_add c oldc, md5_safe_add d oldd))"

function md5_loop :: "int list \<Rightarrow> nat \<Rightarrow> int \<times> int \<times> int \<times> int \<Rightarrow> int \<times> int \<times> int \<times> int" where
  "md5_loop x i st = (if i < length x then md5_loop x (i + 16) (md5_block x i st) else st)"
  by pat_completeness auto
termination
  by (relation "measure (\<lambda>(x, i, st). length x - i)") auto

declare md5_loop.simps [simp del]

text \<open>\<open>len\<close> is the length of the message in bits.\<close>

definition core_md5 :: "int list \<Rightarrow> nat \<Rightarrow> int list" where
  "core_md5 x0 len =
     (let x = word_put x0 (nat (js_sar (int len) 5))
                (js_or (word_at x0 (nat (js_sar (int len) 5))) (js_shl 0x80 (len mod 32)));
          x = word_put x (nat (js_shl (js_shr (int len + 64) 9) 4) + 14) (int len)
      in case md5_loop x 0 (1732584193, - 271733879, - 1732584194, 271733878) of
           (a, b, c, d) \<Rightarrow> [a, b, c, d])"

fun str2binl_loop :: "byte list \<Rightarrow> nat \<Rightarrow> int list \<Rightarrow> int list" where
  "str2binl_loop [] i bin = bin"
| "str2binl_loop (b # bs) i bin =
     str2binl_loop bs (i + 1)
       (word_put bin (nat (js_sar (int i) 2))
          (js_or (word_at bin (nat (js_sar (int i) 2))) (js_shl (uint b) ((i mod 4) * 8))))"

definition str2binl :: "jsstring \<Rightarrow> int list \<times> nat" where
  "str2binl str = (let utf8Bytes = TextEncoder_encode str in
     (str2binl_loop utf8Bytes 0 [], length utf8Bytes))"

definition hex_tab :: "string" where
  "hex_tab = ''0123456789abcdef''"

definition hex_tab_charAt :: "int \<Rightarrow> jsstring" where
  "hex_tab_charAt v = (if 0 \<le> v \<and> nat v < length hex_tab then js [hex_tab ! nat v] else [])"

definition binl2hex :: "int list \<Rightarrow> jsstring" where
  "binl2hex binarray =
     concat (map (\<lambda>i.
        hex_tab_charAt (js_and (js_sar (word_at binarray (nat (js_sar (int i) 2))) ((i mod 4) * 8 + 4)) 0xF) @
        hex_tab_charAt (js_and (js_sar (word_at binarray (nat (js_sar (int i) 2))) ((i mod 4) * 8)) 0xF))
       [0 ..< length binarray * 4])"

definition md5 :: "jsstring \<Rightarrow> jsstring" where
  "md5 s = (case str2binl s of (bin, byteLength) \<Rightarrow> binl2hex (core_md5 bin (byteLength * 8)))"

text \<open>Rotation to the left by \<open>s\<close> bits of an unsigned 32-bit value, in arithmetic form.\<close>

definition rotl32 :: "int \<Rightarrow> nat \<Rightarrow> int" where
  "rotl32 u s = (u * 2 ^ s) mod 4294967296 + u div 2 ^ (32 - s)"

section \<open>The password search engine (services/hashCrackerService.ts)\<close>

text \<open>
  Both searches return a promise and report progress through a callback.  A run is modelled
  by its outcome and the list of progress reports \<open>(checked, total)\<close> in the order they were
  made.  The abort signal is an input from outside: \<open>signal k\<close> tells whether it is found
  aborted at the start of batch number \<open>k\<close>, the only place where the code looks at it.
\<close>

datatype outcome = Resolved "jsstring option" | Rejected_AbortError

type_synonym progress = "nat \<times> nat"

text \<open>A run that nobody cancels.\<close>

definition never_aborted :: "nat \<Rightarrow> bool" where
  "never_aborted k = False"

definition BATCH_SIZE :: nat where
  "BATCH_SIZE = 5000"

subsection \<open>String helpers of the platform\<close>

text \<open>\<open>split(/\r?\n/)\<close>: a line ends at a line feed, or at a carriage return directly followed
  by one.  The result always has at least one element.\<close>

fun split_lines_from :: "jsstring \<Rightarrow> jsstring \<Rightarrow> jsstring list" where
  "split_lines_from cur [] = [cur]"
| "split_lines_from cur [c] = (if c = 0x0A then [cur, []] else [cur @ [c]])"
| "split_lines_from cur (c # d # rest) =
     (if c = 0x0A then cur # split_lines_from [] (d # rest)
      else if c = 0x0D \<and> d = 0x0A then cur # split_lines_from [] rest
      else split_lines_from (cur @ [c]) (d # rest))"

definition split_lines :: "jsstring \<Rightarrow> jsstring list" where
  "split_lines s = split_lines_from [] s"

text \<open>\<open>String.prototype.trim\<close> removes white space and line terminators at both ends.\<close>

definition js_whitespace :: "codeunit \<Rightarrow> bool" where
  "js_whitespace c =
     (c \<in> {0x09, 0x0A, 0x0B, 0x0C, 0x0D, 0x20, 0xA0, 0x1680, 0x2028, 0x2029, 0x202F, 0x205F,
            0x3000, 0xFEFF} \<or> (0x2000 \<le> unat c \<and> unat c \<le> 0x200A))"

definition trim :: "jsstring \<Rightarrow> jsstring" where
  "trim s = rev (dropWhile js_whitespace (rev (dropWhile js_whitespace s)))"

text \<open>The string iterator behind \<open>for (const char of charset)\<close> yields code points: a
  surrogate pair is one element of two code units.\<close>

fun string_iterator :: "jsstring \<Rightarrow> jsstring list" where
  "string_iterator [] = []"
| "string_iterator [u] = [[u]]"
| "string_iterator (u # v # rest) =
     (if is_high_surrogate u \<and> is_low_surrogate v then [u, v] # string_iterator rest
      else [u] # string_iterator (v # rest))"

subsection \<open>Dictionary search\<close>

text \<open>The loop over one batch, from index \<open>i\<close> up to \<open>batchEnd\<close>: the index and the trimmed
  word of the first match, if there is one.\<close>

function crack_batch :: "jsstring \<Rightarrow> jsstring list \<Rightarrow> nat \<Rightarrow> nat \<Rightarrow> (nat \<times> jsstring) option" where
  "crack_batch targetHash words i batchEnd =
     (if i < batchEnd then
        (let word = trim (words ! i) in
         if md5 word = targetHash then Some (i, word)
         else crack_batch targetHash words (i + 1) batchEnd)
      else None)"
  by pat_completeness auto
termination
  by (relation "measure (\<lambda>(t, ws, i, e). e - i)") auto

declare crack_batch.simps [simp del]

text \<open>\<open>processBatch\<close>, rescheduled with \<open>setTimeout\<close> after every batch; \<open>k\<close> counts the
  batches.\<close>

function processBatch_dict ::
  "jsstring \<Rightarrow> jsstring list \<Rightarrow> (nat \<Rightarrow> bool) \<Rightarrow> nat \<Rightarrow> nat \<Rightarrow> progress list \<Rightarrow> outcome \<times> progress list"
where
  "processBatch_dict targetHash words signal k currentIndex reports =
     (let total = length words in
      if signal k then (Rejected_AbortError, reports)
      else
        (let batchEnd = min (currentIndex + BATCH_SIZE) total in
         case crack_batch targetHash words currentIndex batchEnd of
           Some (i, word) \<Rightarrow> (Resolved (Some word), reports @ [(i + 1, total)])
         | None \<Rightarrow>
             if batchEnd < total
             then processBatch_dict targetHash words signal (k + 1) batchEnd
                    (reports @ [(batchEnd, total)])
             else (Resolved None, reports @ [(batchEnd, total)])))"
  by pat_completeness auto
termination
  by (relation "measure (\<lambda>(t, ws, s, k, i, r). length ws - i)")
     (auto simp: BATCH_SIZE_def min_def)

declare processBatch_dict.simps [simp del]

definition crackMD5 :: "jsstring \<Rightarrow> jsstring \<Rightarrow> (nat \<Rightarrow> bool) \<Rightarrow> outcome \<times> progress list" where
  "crackMD5 targetHash wordlist signal =
     processBatch_dict targetHash (filter (\<lambda>w. length w > 0) (split_lines wordlist)) signal 0 0 []"

subsection \<open>Brute force\<close>

text \<open>The number of candidates, \<open>charset.length ^ 1 + \<dots> + charset.length ^ maxLength\<close>.  It
  is only reported as the total of the progress figures.  The sum is the code's number as
  long as it stays below \<open>2 ^ 53\<close>; a larger total is a rounded double in the code.\<close>

definition calculateBruteForceCombinations :: "jsstring \<Rightarrow> int \<Rightarrow> nat" where
  "calculateBruteForceCombinations charset maxLength =
     (if charset = [] \<or> maxLength \<le> 0 then 0
      else (\<Sum>i \<leftarrow> [1 ..< nat maxLength + 1]. length charset ^ i))"

text \<open>The generator, as the list of the strings it yields, in the order it yields them.
  \<open>chars\<close> are the elements the string iterator gives for the charset.\<close>

function generate :: "jsstring list \<Rightarrow> int \<Rightarrow> jsstring \<Rightarrow> nat \<Rightarrow> jsstring list" where
  "generate chars maxLength current depth =
     (if int depth > maxLength then []
      else (if depth > 0 then [current] else []) @
           concat (map (\<lambda>char. generate chars maxLength (current @ char) (depth + 1)) chars))"
  by pat_completeness auto
termination
  by (relation "measure (\<lambda>(cs, m, cur, d). nat (m + 1 - int d))") auto

declare generate.simps [simp del]

text \<open>One batch of at most \<open>BATCH_SIZE\<close> calls of \<open>iterator.next()\<close>; \<open>rest\<close> is what the
  generator has still to yield.  The batch ends with the generator exhausted, with a match,
  or with the batch size reached.\<close>

datatype batch_end = Exhausted | Found jsstring nat | Continue "jsstring list" nat

function brute_batch :: "jsstring \<Rightarrow> nat \<Rightarrow> jsstring list \<Rightarrow> nat \<Rightarrow> batch_end" where
  "brute_batch targetHash i rest checked =
     (if i < BATCH_SIZE then
        (case rest of
           [] \<Rightarrow> Exhausted
         | word # rest' \<Rightarrow>
             if md5 word = targetHash then Found word (checked + 1)
             else brute_batch targetHash (i + 1) rest' (checked + 1))
      else Continue rest checked)"
  by pat_completeness auto
termination
  by (relation "measure (\<lambda>(t, i, r, c). BATCH_SIZE - i)") auto

declare brute_batch.simps [simp del]

lemma brute_batch_Continue_shorter:
  "brute_batch targetHash i rest checked = Continue rest' checked' \<Longrightarrow> i < BATCH_SIZE \<Longrightarrow>
   length rest' < length rest"
proof (induction targetHash i rest checked rule: brute_batch.induct)
  case (1 targetHash i rest checked)
  show ?case
  proof (cases rest)
    case Nil
    with "1.prems" show ?thesis by (simp add: brute_batch.simps [of _ i])
  next
    case (Cons word rest0)
    show ?thesis
    proof (cases "md5 word = targetHash")
      case True
      with "1.prems" Cons show ?thesis by (simp add: brute_batch.simps [of _ i])
    next
      case False
      with "1.prems" Cons have step:
        "brute_batch targetHash (i + 1) rest0 (checked + 1) = Continue rest' checked'"
        by (simp add: brute_batch.simps [of _ i])
      show ?thesis
      proof (cases "i + 1 < BATCH_SIZE")
        case True
        from "1.IH" [OF "1.prems"(2) Cons False step True] Cons show ?thesis by simp
      next
        case False
        with step have "rest' = rest0" by (simp add: brute_batch.simps [of _ "Suc i"])
        with Cons show ?thesis by simp
      qed
    qed
  qed
qed

function processBatch_brute ::
  "jsstring \<Rightarrow> nat \<Rightarrow> (nat \<Rightarrow> bool) \<Rightarrow> nat \<Rightarrow> jsstring list \<Rightarrow> nat \<Rightarrow> progress list \<Rightarrow>
   outcome \<times> progress list"
where
  "processBatch_brute targetHash totalN signal k rest checked reports =
     (if signal k then (Rejected_AbortError, reports)
      else
        (case brute_batch targetHash 0 rest checked of
           Exhausted \<Rightarrow> (Resolved None, reports @ [(totalN, totalN)])
         | Found word checked' \<Rightarrow> (Resolved (Some word), reports @ [(checked', totalN)])
         | Continue rest' checked' \<Rightarrow>
             processBatch_brute targetHash totalN signal (k + 1) rest' checked'
               (reports @ [(checked', totalN)])))"
  by pat_completeness auto
termination
  by (relation "measure (\<lambda>(t, n, s, k, r, c, rs). length r)")
     (auto dest!: brute_batch_Continue_shorter simp: BATCH_SIZE_def)

declare processBatch_brute.simps [simp del]

definition bruteForceMD5 ::
  "jsstring \<Rightarrow> jsstring \<Rightarrow> int \<Rightarrow> (nat \<Rightarrow> bool) \<Rightarrow> outcome \<times> progress list" where
  "bruteForceMD5 targetHash charset maxLength signal =
     processBatch_brute targetHash (calculateBruteForceCombinations charset maxLength) signal 0
       (generate (string_iterator charset) maxLength [] 0) 0 []"

subsection \<open>Candidates as words over the positions of the charset\<close>

text \<open>
  A candidate is spelled by a word over the positions \<open>0, \<dots>, n - 1\<close> of the charset's
  elements.  Words are compared in dictionary order: position by position, a proper prefix
  before its extensions (the order that \<^theory_text>\<open>List_Lexorder\<close> puts on lists).
\<close>

definition spell :: "jsstring list \<Rightarrow> nat list \<Rightarrow> jsstring" where
  "spell chars w = concat (map (\<lambda>i. chars ! i) w)"

definition words_upto :: "nat \<Rightarrow> int \<Rightarrow> nat list set" where
  "words_upto n maxLength = {w. w \<noteq> [] \<and> set w \<subseteq> {..<n} \<and> int (length w) \<le> maxLength}"

text \<open>The words the generator visits below a node of depth \<open>d\<close>, relative to that node.\<close>

function idx_words :: "nat \<Rightarrow> int \<Rightarrow> nat \<Rightarrow> nat list list" where
  "idx_words n maxLength d =
     (if int d > maxLength then []
      else (if d > 0 then [[]] else []) @
           concat (map (\<lambda>i. map ((#) i) (idx_words n maxLength (d + 1))) [0 ..< n]))"
  by pat_completeness auto
termination
  by (relation "measure (\<lambda>(n, m, d). nat (m + 1 - int d))") auto

declare idx_words.simps [simp del]

section \<open>The seeded permutation generator (utils.ts)\<close>

text \<open>\<open>stringToSeed\<close>: a polynomial hash over the UTF-16 code units of the key, kept in 32 bits
  by \<open>hash |= 0\<close> after every step; the result is its absolute value.\<close>

definition stringToSeed_step :: "int \<Rightarrow> codeunit \<Rightarrow> int" where
  "stringToSeed_step hash c = js_or (js_shl hash 5 - hash + uint c) 0"

definition stringToSeed :: "jsstring \<Rightarrow> int" where
  "stringToSeed key = (if length key = 0 then 0 else \<bar>foldl stringToSeed_step 0 key\<bar>)"

text \<open>
  Numbers are IEEE doubles.  An integer below \<open>2 ^ 53\<close> in absolute value is a double; the
  result of an addition or a multiplication that is larger is rounded to the nearest double:
  to 53 significant bits, a tie going to the even significand.  \<open>bit_length n\<close> is the number
  of bits of \<open>n\<close>, and \<open>round_double v\<close> the double nearest to the integer \<open>v\<close>.
\<close>

function bit_length :: "nat \<Rightarrow> nat" where
  "bit_length n = (if n = 0 then 0 else Suc (bit_length (n div 2)))"
  by pat_completeness auto
termination
  by (relation "measure (\<lambda>n. n)") auto

declare bit_length.simps [simp del]

definition round_double :: "int \<Rightarrow> int" where
  "round_double v =
     (if \<bar>v\<bar> < 2 ^ 53 then v
      else (let q = 2 ^ (bit_length (nat \<bar>v\<bar>) - 53);
                m = \<bar>v\<bar> div q;
                rest = \<bar>v\<bar> mod q;
                m' = (if 2 * rest < q \<or> (2 * rest = q \<and> even m) then m else m + 1)
            in sgn v * (m' * q)))"

text \<open>
  \<open>mulberry32 seed\<close> returns a closure over the variable \<open>seed\<close>.  One call of the closure
  adds the constant to \<open>seed\<close> (a floating-point addition: nothing wraps, and the sum is
  rounded once it passes \<open>2 ^ 53\<close>) and returns a value in \<open>[0, 1)\<close>: an unsigned 32-bit
  integer divided by \<open>2 ^ 32\<close>, which is exact.  \<open>mulberry32_next\<close> is one call: it takes the
  current value of \<open>seed\<close>, an integer, and gives that unsigned integer and the new value of
  \<open>seed\<close>.  The bitwise operators and \<open>Math.imul\<close> convert their operands to 32 bits, and the
  one sum inside, of two 32-bit integers, is exact.
\<close>

definition Math_imul :: "int \<Rightarrow> int \<Rightarrow> int" where
  "Math_imul a b = ToInt32 (ToInt32 a * ToInt32 b)"

definition mulberry32_next :: "int \<Rightarrow> int \<times> int" where
  "mulberry32_next seed =
     (let seed' = round_double (seed + 0x6D2B79F5);
          t = seed';
          t = Math_imul (js_xor t (js_shr t 15)) (js_or t 1);
          t = js_xor t (t + Math_imul (js_xor t (js_shr t 7)) (js_or t 61))
      in (js_shr (js_xor t (js_shr t 14)) 0, seed'))"

text \<open>
  \<open>Math.floor(random() * (i + 1))\<close> for the value \<open>r / 2 ^ 32\<close> of \<open>random()\<close>.  The product
  \<open>r * (i + 1) / 2 ^ 32\<close> is rounded to a double before \<open>Math.floor\<close>; as a division by
  \<open>2 ^ 32\<close> only changes the exponent, the rounded product is \<open>round_double (r * (i + 1))\<close>
  divided by \<open>2 ^ 32\<close>.  (An array has fewer than \<open>2 ^ 32\<close> elements, so \<open>i + 1\<close> is exact.)
\<close>

definition random_index :: "int \<Rightarrow> nat \<Rightarrow> nat" where
  "random_index r i = nat (round_double (r * (int i + 1)) div 4294967296)"

text \<open>The destructuring assignment \<open>[result[i], result[j]] = [result[j], result[i]]\<close>.\<close>

definition swap :: "'a list \<Rightarrow> nat \<Rightarrow> nat \<Rightarrow> 'a list" where
  "swap result i j = (result[i := result ! j])[j := result ! i]"

text \<open>The loop \<open>for (let i = result.length - 1; i > 0; i--)\<close>, on the copy \<open>result\<close>.\<close>

fun shuffle_loop :: "'a list \<Rightarrow> nat \<Rightarrow> int \<Rightarrow> 'a list" where
  "shuffle_loop result 0 seed = result"
| "shuffle_loop result (Suc i') seed =
     (case mulberry32_next seed of
        (r, seed') \<Rightarrow> shuffle_loop (swap result (Suc i') (random_index r (Suc i'))) i' seed')"

definition seededShuffle :: "'a list \<Rightarrow> int \<Rightarrow> 'a list" where
  "seededShuffle array seed = shuffle_loop array (length array - 1) seed"

subsection \<open>The same function on a store of arrays\<close>

text \<open>
  Arrays are objects: the caller passes a reference, and \<open>[...array]\<close> allocates a new
  array.  In the store \<open>h\<close> a reference is an index, the array it refers to is \<open>h ! ref\<close>, and
  allocation appends to the store.  The loop mutates the array at \<open>result\<close> in place; the
  function returns the store after the call and the reference it returns.
\<close>

type_synonym 'a store = "'a list list"

fun shuffle_loop_store :: "'a store \<Rightarrow> nat \<Rightarrow> nat \<Rightarrow> int \<Rightarrow> 'a store" where
  "shuffle_loop_store h result 0 seed = h"
| "shuffle_loop_store h result (Suc i') seed =
     (case mulberry32_next seed of
        (r, seed') \<Rightarrow>
          shuffle_loop_store (h[result := swap (h ! result) (Suc i') (random_index r (Suc i'))])
            result i' seed')"

definition seededShuffle_store :: "'a store \<Rightarrow> nat \<Rightarrow> int \<Rightarrow> 'a store \<times> nat" where
  "seededShuffle_store h array seed =
     (let result = length h;
          h' = h @ [h ! array]
      in (shuffle_loop_store h' result (length (h' ! result) - 1) seed, result))"

section \<open>Evaluating the digest\<close>

lemma length_js: "length (js s) = length s"
  by (simp add: js_def)

lemmas js_num_defs =
  ToInt32_def ToUint32_def js_and_def js_or_def js_xor_def js_not_def js_shl_def js_sar_def
  js_shr_def

lemma ToInt32_range: "- 2147483648 \<le> ToInt32 v \<and> ToInt32 v < 2147483648"
proof -
  define m where "m = (v + 2147483648) mod 4294967296"
  have "0 \<le> m" "m < 4294967296"
    by (simp_all add: m_def)
  then show ?thesis
    unfolding ToInt32_def m_def [symmetric] by simp
qed

lemma ToInt32_unique:
  assumes "- 2147483648 \<le> r" "r < 2147483648" "(r - v) mod 4294967296 = 0"
  shows "ToInt32 v = r"
proof -
  from assms(3) obtain k where k: "r - v = 4294967296 * k"
    by (auto simp: mod_eq_0_iff_dvd)
  have "v + 2147483648 = (r + 2147483648) + 4294967296 * (- k)"
    using k by simp
  then have "(v + 2147483648) mod 4294967296 = (r + 2147483648) mod 4294967296"
    by (metis mod_mult_self2)
  also have "\<dots> = r + 2147483648"
    using assms(1,2) by simp
  finally show ?thesis by (simp add: ToInt32_def)
qed

lemma ToInt32_cong: "(ToInt32 v - v) mod 4294967296 = 0"
  unfolding ToInt32_def by (simp add: diff_diff_eq mod_diff_left_eq)

lemma ToInt32_id: "- 2147483648 \<le> v \<Longrightarrow> v < 2147483648 \<Longrightarrow> ToInt32 v = v"
  by (rule ToInt32_unique) simp_all

lemma and_65535: "(a::int) AND 65535 = a mod 65536"
proof -
  have "a AND 65535 = a AND mask 16" by (simp add: mask_eq_exp_minus_1)
  also have "\<dots> = take_bit 16 a" by (simp add: take_bit_eq_mask)
  also have "\<dots> = a mod 65536" by (simp add: take_bit_eq_mod)
  finally show ?thesis .
qed

lemma or_disjoint:
  assumes "0 \<le> l" "l < 2 ^ n"
  shows "(h * 2 ^ n) OR l = h * 2 ^ n + (l::int)"
proof -
  have l: "take_bit n l = l" using assms by (simp add: take_bit_int_eq_self)
  have "push_bit n h + take_bit n l = push_bit n h OR take_bit n l"
    by (rule disjunctive_add) (auto simp: bit_push_bit_iff bit_take_bit_iff)
  then show ?thesis by (simp add: l push_bit_eq_mult)
qed

lemma md5_safe_add_eval: "md5_safe_add x y = ToInt32 (x + y)"
proof -
  define X where "X = ToInt32 x"
  define Y where "Y = ToInt32 y"
  define lsw where "lsw = X mod 65536 + Y mod 65536"
  define msw where "msw = X div 65536 + Y div 65536 + lsw div 65536"
  define H where "H = ToInt32 (ToInt32 msw * 65536)"
  have lsw: "0 \<le> lsw" "lsw < 131072" by (simp_all add: lsw_def) 
  have lsw32: "ToInt32 lsw = lsw" using lsw by (intro ToInt32_id) simp_all
  have lo: "ToInt32 (lsw mod 65536) = lsw mod 65536"
    by (intro ToInt32_id) (simp_all add: order_trans [OF _ pos_mod_sign] less_trans [OF pos_mod_bound])
  have eq: "md5_safe_add x y = ToInt32 H OR (lsw mod 65536)"
    by (simp add: md5_safe_add_def Let_def js_and_def js_or_def js_sar_def js_shl_def and_65535
        X_def Y_def lsw_def msw_def H_def lsw32 lo ToInt32_id)
  have HH: "ToInt32 H = H"
    using ToInt32_range [of "ToInt32 msw * 65536"] by (intro ToInt32_id) (simp_all add: H_def)
  have d1: "4294967296 dvd (H - ToInt32 msw * 65536)"
    using ToInt32_cong [of "ToInt32 msw * 65536"] by (simp add: H_def mod_eq_0_iff_dvd)
  have "4294967296 dvd (ToInt32 msw - msw)"
    using ToInt32_cong [of msw] by (simp add: mod_eq_0_iff_dvd)
  then have d2: "4294967296 dvd (ToInt32 msw - msw) * 65536"
    by (rule dvd_mult2)
  have d3: "4294967296 dvd (X - x)" "4294967296 dvd (Y - y)"
    using ToInt32_cong [of x] ToInt32_cong [of y] by (simp_all add: X_def Y_def mod_eq_0_iff_dvd)
  have "(65536::int) dvd 4294967296" by simp
  then have "65536 dvd (H - ToInt32 msw * 65536)" using d1 by (rule dvd_trans)
  then have "65536 dvd H" by (simp add: dvd_diff_left_iff)
  then obtain h where h: "H = h * 2 ^ 16" by (auto simp: dvd_def mult.commute)
  have L: "0 \<le> lsw mod 65536" "lsw mod 65536 < 2 ^ 16" by simp_all
  have R: "md5_safe_add x y = H + lsw mod 65536"
    unfolding eq HH using or_disjoint [OF L, of h] by (simp add: h)
  have exact: "msw * 65536 + lsw mod 65536 = X + Y"
  proof -
    have "X = X div 65536 * 65536 + X mod 65536" "Y = Y div 65536 * 65536 + Y mod 65536"
      "lsw = lsw div 65536 * 65536 + lsw mod 65536"
      by simp_all
    then show ?thesis
      unfolding msw_def by (simp add: algebra_simps lsw_def)
  qed
  have e: "H + lsw mod 65536 - (x + y) =
      ((H - ToInt32 msw * 65536) + (ToInt32 msw - msw) * 65536) + ((X - x) + (Y - y))"
    using exact by (simp add: algebra_simps)
  have "4294967296 dvd (H + lsw mod 65536 - (x + y))"
    unfolding e by (intro dvd_add d1 d2 d3)
  then have c: "(H + lsw mod 65536 - (x + y)) mod 4294967296 = 0" by (simp add: mod_eq_0_iff_dvd)
  have Hr: "- 2147483648 \<le> H" "H < 2147483648"
    using ToInt32_range [of "ToInt32 msw * 65536"] by (simp_all add: H_def)
  have L0: "0 \<le> lsw mod 65536" "lsw mod 65536 < 65536" by simp_all
  have r1: "- 2147483648 \<le> H + lsw mod 65536" using Hr L0 by linarith
  have "h < 32768" using Hr(2) by (simp add: h)
  then have "H \<le> 2147483648 - 65536" by (simp add: h)
  then have r2: "H + lsw mod 65536 < 2147483648" using L0 by linarith
  show ?thesis unfolding R by (rule ToInt32_unique [symmetric, OF r1 r2 c])
qed

lemma md5_bit_rol_eval:
  assumes s: "0 < s" "s < 32"
  shows "md5_bit_rol num s = ToInt32 (rotl32 (ToUint32 num) s)"
proof -
  define u where "u = ToUint32 num"
  define A where "A = ToInt32 (ToInt32 num * 2 ^ s)"
  define B where "B = u div 2 ^ (32 - s)"
  have u: "0 \<le> u" "u < 4294967296" by (simp_all add: u_def ToUint32_def)
  have p: "(2::int) ^ (32 - s) * 2 ^ s = 4294967296"
    using s by (simp flip: power_add)
  have B0: "0 \<le> B" using u by (simp add: B_def pos_imp_zdiv_nonneg_iff)
  have c0: "(0::int) < 2 ^ (32 - s)" by simp
  have "2 ^ (32 - s) * B \<le> u"
    unfolding B_def
    using mult_div_mod_eq [of "2 ^ (32 - s)" u] pos_mod_sign [OF c0, of u] by linarith
  then have "B * 2 ^ (32 - s) < 2 ^ s * 2 ^ (32 - s)"
    using u p by (simp add: mult.commute)
  then have Bs: "B < 2 ^ s" by simp
  have "(2::int) ^ s \<le> 2 ^ 31" using s by (intro power_increasing) simp_all
  then have B31: "B < 2147483648" using Bs by simp
  note B = B0 Bs
  have AA: "ToInt32 A = A"
    using ToInt32_range [of "ToInt32 num * 2 ^ s"] by (intro ToInt32_id) (simp_all add: A_def)
  have BB: "ToInt32 B = B" using B B31 by (intro ToInt32_id) simp_all
  have eq: "md5_bit_rol num s = A OR B"
    using s by (simp add: md5_bit_rol_def js_or_def js_shl_def js_shr_def A_def B_def u_def AA [unfolded A_def] BB [unfolded B_def u_def])
  have d1: "4294967296 dvd (A - ToInt32 num * 2 ^ s)"
    using ToInt32_cong [of "ToInt32 num * 2 ^ s"] by (simp add: A_def mod_eq_0_iff_dvd)
  have "(2::int) ^ s dvd 2 ^ 32" using s by (intro le_imp_power_dvd) simp
  then have "(2::int) ^ s dvd 4294967296" by simp
  then have "2 ^ s dvd (A - ToInt32 num * 2 ^ s)" using d1 by (rule dvd_trans)
  then have "2 ^ s dvd A" by (simp add: dvd_diff_left_iff)
  then obtain h where h: "A = h * 2 ^ s" by (auto simp: dvd_def mult.commute)
  have R: "md5_bit_rol num s = A + B"
    unfolding eq using or_disjoint [OF B, of h] by (simp add: h)
  have Ar: "- 2147483648 \<le> A" "A < 2147483648"
    using ToInt32_range [of "ToInt32 num * 2 ^ s"] by (simp_all add: A_def)
  have p31: "(2::int) ^ (31 - s) * 2 ^ s = 2147483648"
    using s by (simp flip: power_add)
  have "h * 2 ^ s < 2 ^ (31 - s) * 2 ^ s" using Ar(2) by (simp add: h p31)
  then have "h < 2 ^ (31 - s)" by simp
  then have "h + 1 \<le> 2 ^ (31 - s)" by simp
  then have "(h + 1) * 2 ^ s \<le> 2 ^ (31 - s) * 2 ^ s" by (intro mult_right_mono) simp_all
  then have "(h + 1) * 2 ^ s \<le> 2147483648" unfolding p31 .
  then have "A + 2 ^ s \<le> 2147483648" by (simp add: h algebra_simps)
  then have r2: "A + B < 2147483648" using Bs by linarith
  have r1: "- 2147483648 \<le> A + B" using Ar B0 by linarith
  have "(ToInt32 num - u) mod 4294967296 = 0"
    using ToInt32_cong [of num] by (simp add: u_def ToUint32_def mod_diff_right_eq)
  then have d2: "4294967296 dvd (ToInt32 num - u) * 2 ^ s"
    by auto
  have d3: "4294967296 dvd (u * 2 ^ s - (u * 2 ^ s) mod 4294967296)"
    by simp
  have e: "A + B - rotl32 u s = ((A - ToInt32 num * 2 ^ s) + (ToInt32 num - u) * 2 ^ s)
     + (u * 2 ^ s - (u * 2 ^ s) mod 4294967296)"
    by (simp add: rotl32_def B_def algebra_simps)
  have "4294967296 dvd (A + B - rotl32 u s)"
    unfolding e by (intro dvd_add d1 d2 d3)
  then have c: "(A + B - rotl32 u s) mod 4294967296 = 0" by (simp add: mod_eq_0_iff_dvd)
  show ?thesis unfolding R u_def [symmetric] by (rule ToInt32_unique [symmetric, OF r1 r2 c])
qed

lemma ToInt32_add_left: "ToInt32 (ToInt32 a + b) = ToInt32 (a + b)"
proof (rule ToInt32_unique)
  show "- 2147483648 \<le> ToInt32 (a + b)" "ToInt32 (a + b) < 2147483648"
    using ToInt32_range [of "a + b"] by simp_all
  have "4294967296 dvd (ToInt32 (a + b) - (a + b))" "4294967296 dvd (ToInt32 a - a)"
    using ToInt32_cong [of "a + b"] ToInt32_cong [of a] by (simp_all add: mod_eq_0_iff_dvd)
  then have "4294967296 dvd ((ToInt32 (a + b) - (a + b)) - (ToInt32 a - a))"
    by (rule dvd_diff)
  then show "(ToInt32 (a + b) - (ToInt32 a + b)) mod 4294967296 = 0"
    by (simp add: mod_eq_0_iff_dvd algebra_simps)
qed

lemma ToInt32_add_right: "ToInt32 (a + ToInt32 b) = ToInt32 (a + b)"
  using ToInt32_add_left [of b a] by (simp add: add.commute)

lemma ToUint32_ToInt32: "ToUint32 (ToInt32 a) = ToUint32 a"
proof -
  have "4294967296 dvd (ToInt32 a - a)"
    using ToInt32_cong [of a] by (simp add: mod_eq_0_iff_dvd)
  then show ?thesis
    unfolding ToUint32_def by (metis mod_eq_dvd_iff)
qed

lemma md5_cmn_eval:
  "0 < s \<Longrightarrow> s < 32 \<Longrightarrow>
   md5_cmn q a b x s t = ToInt32 (rotl32 (ToUint32 (a + q + (x + t))) s + b)"
  by (simp add: md5_cmn_def md5_safe_add_eval md5_bit_rol_eval ToInt32_add_left ToInt32_add_right
      ToUint32_ToInt32)

lemmas md5_fast =
  md5_cmn_eval md5_safe_add_eval rotl32_def md5_ff_def md5_gg_def md5_hh_def md5_ii_def
  word_at_def word_put_def Let_def

lemma md5_one_block:
  "0 < length x \<Longrightarrow> length x \<le> 16 \<Longrightarrow> md5_loop x 0 st = md5_block x 0 st"
  by (subst md5_loop.simps, subst md5_loop.simps, simp)





lemma map_weak_cong: "xs = ys \<Longrightarrow> map f xs = map f ys" by simp
lemma Let_weak_cong: "s = t \<Longrightarrow> Let s f = Let t f" by simp
lemma upt_0_16: "[0..<16] = [0,1,2,3,4,5,6,7,8,9,10,11,12,13,14,15]" by code_simp
lemma replicate_num: "replicate (numeral k) x = x # replicate (pred_numeral k) x"
  by (simp add: numeral_eq_Suc)

lemmas md5_run =
  md5_def str2binl_def TextEncoder_encode_def js_def binl2hex_def hex_tab_charAt_def hex_tab_def
  is_high_surrogate_def is_low_surrogate_def utf8_encode_cp_def
  core_md5_def md5_one_block md5_ops_def md5_fast js_num_defs upt_0_16 replicate_num






lemma md5_eval:
  "str2binl s = (bin, n) \<Longrightarrow> core_md5 bin (n * 8) = ws \<Longrightarrow> binl2hex ws = h \<Longrightarrow> md5 s = h"
  by (simp add: md5_def)


section \<open>Properties of the search engine\<close>

lemma spell_Nil [simp]: "spell chars [] = []"
  by (simp add: spell_def)

lemma spell_Cons [simp]: "spell chars (i # w) = chars ! i @ spell chars w"
  by (simp add: spell_def)

lemma generate_idx_words:
  "generate chars m cur d = map (\<lambda>w. cur @ spell chars w) (idx_words (length chars) m d)"
proof (induction chars m cur d rule: generate.induct)
  case (1 chars m cur d)
  show ?case
  proof (cases "int d > m")
    case True
    then show ?thesis by (simp add: generate.simps [of _ _ cur d] idx_words.simps [of _ _ d])
  next
    case False
    have "concat (map (\<lambda>char. generate chars m (cur @ char) (d + 1)) chars) =
          concat (map (\<lambda>char. map (\<lambda>w. (cur @ char) @ spell chars w)
                    (idx_words (length chars) m (d + 1))) chars)"
      using "1.IH" [OF False] by (simp cong: map_cong)
    also have "\<dots> = concat (map (\<lambda>i. map (\<lambda>w. (cur @ chars ! i) @ spell chars w)
                    (idx_words (length chars) m (d + 1))) [0 ..< length chars])"
      by (subst (3) map_nth [symmetric, of chars]) (simp only: map_map o_def)
    finally show ?thesis
      using False
      by (simp add: generate.simps [of _ _ cur d] idx_words.simps [of _ _ d] map_concat o_def)
  qed
qed

lemma sorted_blocks:
  fixes W :: "nat list list" and ks :: "nat list"
  assumes "sorted_wrt (<) W" "sorted_wrt (<) ks"
  shows "sorted_wrt (<) (concat (map (\<lambda>i. map ((#) i) W) ks))"
  using assms(2)
proof (induction ks)
  case Nil
  then show ?case by simp
next
  case (Cons k ks)
  have "sorted_wrt (<) (map ((#) k) W)"
    using assms(1) by (simp add: sorted_wrt_map)
  with Cons show ?case
    by (auto simp: sorted_wrt_append)
qed

lemma idx_words_sorted: "sorted_wrt (<) (idx_words n m d)"
proof (induction n m d rule: idx_words.induct)
  case (1 n m d)
  show ?case
  proof (cases "int d > m")
    case True
    then show ?thesis by (simp add: idx_words.simps [of _ _ d])
  next
    case False
    have W: "sorted_wrt (<) (idx_words n m (d + 1))" if "0 < n"
      using "1.IH" [OF False, of 0] that by simp
    have "sorted_wrt (<) (concat (map (\<lambda>i. map ((#) i) (idx_words n m (d + 1))) [0 ..< n]))"
    proof (cases "0 < n")
      case True
      then show ?thesis by (intro sorted_blocks W) (simp_all add: strict_sorted_iff [symmetric] del: upt.simps)
    next
      case False
      then show ?thesis by simp
    qed
    then show ?thesis
      using False by (auto simp: idx_words.simps [of _ _ d] sorted_wrt_append)
  qed
qed

lemma Cons_in_blocks:
  "i # w \<in> set (concat (map (\<lambda>i. map ((#) i) W) ks)) \<longleftrightarrow> i \<in> set ks \<and> w \<in> set W"
  by auto

lemma Nil_notin_blocks: "[] \<notin> set (concat (map (\<lambda>i. map ((#) i) W) ks))"
  by auto

lemma idx_words_set:
  "set (idx_words n m d) = {w. set w \<subseteq> {..<n} \<and> (d > 0 \<or> w \<noteq> []) \<and> int (d + length w) \<le> m}"
proof (induction n m d rule: idx_words.induct)
  case (1 n m d)
  show ?case
  proof (cases "int d > m")
    case True
    then show ?thesis by (auto simp: idx_words.simps [of _ _ d])
  next
    case False
    have IH: "set (idx_words n m (d + 1)) = {w. set w \<subseteq> {..<n} \<and> int (d + 1 + length w) \<le> m}"
      if "i < n" for i
      using "1.IH" [OF False, of i] that by simp
    show ?thesis
    proof (rule set_eqI)
      fix w
      show "w \<in> set (idx_words n m d) \<longleftrightarrow>
        w \<in> {w. set w \<subseteq> {..<n} \<and> (d > 0 \<or> w \<noteq> []) \<and> int (d + length w) \<le> m}"
      proof (cases w)
        case Nil
        then show ?thesis
          using False by (simp add: idx_words.simps [of _ _ d] Nil_notin_blocks del: set_concat)
      next
        case (Cons i w')
        show ?thesis
        proof (cases "i < n")
          case True
          then show ?thesis
            using False Cons IH [OF True]
            by (simp add: idx_words.simps [of _ _ d] Cons_in_blocks del: set_concat) auto
        next
          case False
          then show ?thesis
            using \<open>\<not> int d > m\<close> Cons
            by (simp add: idx_words.simps [of _ _ d] Cons_in_blocks del: set_concat)
        qed
      qed
    qed
  qed
qed

lemma finite_words_upto: "finite (words_upto n m)"
proof -
  have "words_upto n m \<subseteq> {w. set w \<subseteq> {..<n} \<and> length w \<le> nat m}"
    by (auto simp: words_upto_def)
  then show ?thesis
    by (rule finite_subset) (simp add: finite_lists_length_le)
qed

lemma idx_words_dictionary: "idx_words n m 0 = sorted_list_of_set (words_upto n m)"
proof (rule sorted_distinct_set_unique)
  show "sorted (idx_words n m 0)" "distinct (idx_words n m 0)"
    using idx_words_sorted [of n m 0] by (simp_all add: strict_sorted_iff)
  show "sorted (sorted_list_of_set (words_upto n m))"
    "distinct (sorted_list_of_set (words_upto n m))"
    by simp_all
  show "set (idx_words n m 0) = set (sorted_list_of_set (words_upto n m))"
    by (auto simp: idx_words_set words_upto_def finite_words_upto [unfolded words_upto_def])
qed

lemma generate_dictionary_order:
  "generate chars m [] 0 = map (spell chars) (sorted_list_of_set (words_upto (length chars) m))"
  by (simp add: generate_idx_words idx_words_dictionary)

lemma find_append:
  "find P (xs @ ys) = (case find P xs of None \<Rightarrow> find P ys | Some x \<Rightarrow> Some x)"
  by (induction xs) simp_all

lemma brute_batch_find:
  "brute_batch t i rest checked =
     (case find (\<lambda>w. md5 w = t) (take (BATCH_SIZE - i) rest) of
        Some w \<Rightarrow> Found w (checked + 1 + length (takeWhile (\<lambda>w. md5 w \<noteq> t) rest))
      | None \<Rightarrow>
          if length rest < BATCH_SIZE - i then Exhausted
          else Continue (drop (BATCH_SIZE - i) rest) (checked + (BATCH_SIZE - i)))"
proof (induction t i rest checked rule: brute_batch.induct)
  case (1 t i rest checked)
  show ?case
  proof (cases "i < BATCH_SIZE")
    case False
    then show ?thesis by (simp add: brute_batch.simps [of _ i])
  next
    case True
    then obtain n where n: "BATCH_SIZE - i = Suc n" "BATCH_SIZE - (i + 1) = n"
      by (cases "BATCH_SIZE - i") auto
    show ?thesis
    proof (cases rest)
      case Nil
      then show ?thesis using True by (simp add: brute_batch.simps [of _ i])
    next
      case (Cons word rest')
      show ?thesis
      proof (cases "md5 word = t")
        case True
        then show ?thesis
          using \<open>i < BATCH_SIZE\<close> Cons n by (simp add: brute_batch.simps [of _ i])
      next
        case False
        from "1.IH" [OF True Cons False] show ?thesis
          using \<open>i < BATCH_SIZE\<close> Cons n False
          by (simp add: brute_batch.simps [of _ i] split: option.splits)
      qed
    qed
  qed
qed

lemma processBatch_brute_find:
  "fst (processBatch_brute t totalN (\<lambda>k. False) k rest checked reports) =
     Resolved (find (\<lambda>w. md5 w = t) rest)"
proof (induction t totalN "\<lambda>k::nat. False" k rest checked reports rule: processBatch_brute.induct)
  case (1 t totalN k rest checked reports)
  let ?P = "\<lambda>w. md5 w = t"
  have split: "find ?P rest =
      (case find ?P (take BATCH_SIZE rest) of None \<Rightarrow> find ?P (drop BATCH_SIZE rest) | Some x \<Rightarrow> Some x)"
    using find_append [of ?P "take BATCH_SIZE rest" "drop BATCH_SIZE rest"] by simp
  show ?case
  proof (cases "find ?P (take BATCH_SIZE rest)")
    case (Some w)
    then show ?thesis
      by (simp add: processBatch_brute.simps [of _ _ _ k] brute_batch_find split)
  next
    case None
    show ?thesis
    proof (cases "length rest < BATCH_SIZE")
      case True
      then show ?thesis
        using None by (simp add: processBatch_brute.simps [of _ _ _ k] brute_batch_find)
    next
      case False
      have b: "brute_batch t 0 rest checked = Continue (drop BATCH_SIZE rest) (checked + BATCH_SIZE)"
        using None False by (simp add: brute_batch_find)
      from "1.hyps" [OF _ b] show ?thesis
        using None by (simp add: processBatch_brute.simps [of _ _ _ k] b split)
    qed
  qed
qed

lemma takeWhile_append_none:
  "find P xs = None \<Longrightarrow> takeWhile (\<lambda>x. \<not> P x) (xs @ ys) = xs @ takeWhile (\<lambda>x. \<not> P x) ys"
  by (induction xs) (simp_all split: if_splits)

lemma takeWhile_append_some:
  "find P xs = Some x \<Longrightarrow> takeWhile (\<lambda>x. \<not> P x) (xs @ ys) = takeWhile (\<lambda>x. \<not> P x) xs"
  by (induction xs) (simp_all split: if_splits)

lemma crack_batch_find:
  "e \<le> length words \<Longrightarrow>
   crack_batch t words i e =
     (case find (\<lambda>w. md5 w = t) (map trim (take (e - i) (drop i words))) of
        None \<Rightarrow> None
      | Some w \<Rightarrow>
          Some (i + length (takeWhile (\<lambda>w. md5 w \<noteq> t) (map trim (take (e - i) (drop i words)))), w))"
proof (induction t words i e rule: crack_batch.induct)
  case (1 t words i e)
  show ?case
  proof (cases "i < e")
    case False
    then show ?thesis by (simp add: crack_batch.simps [of _ _ i])
  next
    case True
    with "1.prems" have i: "i < length words" by simp
    obtain n where n: "e - i = Suc n" "e - (i + 1) = n"
      using True by (cases "e - i") auto
    have d: "drop i words = words ! i # drop (i + 1) words"
      using i by (simp add: Cons_nth_drop_Suc)
    show ?thesis
    proof (cases "md5 (trim (words ! i)) = t")
      case True
      then show ?thesis
        using \<open>i < e\<close> n d by (simp add: crack_batch.simps [of _ _ i])
    next
      case False
      from "1.IH" [OF True refl False "1.prems"] show ?thesis
        using \<open>i < e\<close> n d False
        by (simp add: crack_batch.simps [of _ _ i] split: option.splits)
    qed
  qed
qed

lemma processBatch_dict_find:
  "cur \<le> length words \<Longrightarrow>
   processBatch_dict t words (\<lambda>k. False) k cur reports = (out, reps) \<Longrightarrow>
   out = Resolved (find (\<lambda>w. md5 w = t) (map trim (drop cur words))) \<and>
   last reps =
     (case find (\<lambda>w. md5 w = t) (map trim (drop cur words)) of
        Some w \<Rightarrow> (cur + length (takeWhile (\<lambda>w. md5 w \<noteq> t) (map trim (drop cur words))) + 1,
                  length words)
      | None \<Rightarrow> (length words, length words))"
proof (induction t words "\<lambda>k::nat. False" k cur reports arbitrary: out reps
    rule: processBatch_dict.induct)
  case (1 t words k cur reports)
  let ?P = "\<lambda>w. md5 w = t"
  define e where "e = min (cur + BATCH_SIZE) (length words)"
  have e: "e \<le> length words" "cur \<le> e" by (simp_all add: e_def "1.prems"(1))
  define xs where "xs = map trim (take (e - cur) (drop cur words))"
  define ys where "ys = map trim (drop e words)"
  have app: "map trim (drop cur words) = xs @ ys"
  proof -
    have a: "drop (e - cur) (drop cur words) = drop e words"
      using e by simp
    have "drop cur words = take (e - cur) (drop cur words) @ drop e words"
      unfolding a [symmetric] by (rule append_take_drop_id [symmetric])
    then have "map trim (drop cur words) = map trim (take (e - cur) (drop cur words) @ drop e words)"
      by simp
    then show ?thesis by (simp only: xs_def ys_def map_append)
  qed
  have lx: "length xs = e - cur" using e by (simp add: xs_def)
  show ?case
  proof (cases "find ?P xs")
    case (Some w)
    have "crack_batch t words cur e =
        Some (cur + length (takeWhile (\<lambda>w. md5 w \<noteq> t) xs), w)"
      using Some by (simp add: crack_batch_find [OF e(1)] xs_def)
    then show ?thesis
      using "1.prems"(2) Some
      by (auto simp: processBatch_dict.simps [of _ _ _ k] Let_def e_def [symmetric] app
          find_append takeWhile_append_some)
  next
    case None
    have cb: "crack_batch t words cur e = None"
      using None by (simp add: crack_batch_find [OF e(1)] xs_def)
    show ?thesis
    proof (cases "e < length words")
      case False
      then have "ys = []" by (simp add: ys_def)
      then show ?thesis
        using "1.prems"(2) None cb False e
        by (auto simp: processBatch_dict.simps [of _ _ _ k] Let_def e_def [symmetric] app)
    next
      case True
      have step: "processBatch_dict t words (\<lambda>k. False) (k + 1) e (reports @ [(e, length words)])
          = (out, reps)"
        using "1.prems"(2) cb True
        by (simp add: processBatch_dict.simps [of _ _ _ k] Let_def e_def [symmetric])
      have "\<not> False" by simp
      from "1.hyps" [OF refl this e_def cb True e(1) step]
      show ?thesis
        using None e lx
        by (simp add: app find_append takeWhile_append_none ys_def [symmetric] split: option.splits)
    qed
  qed
qed
section \<open>Properties of the seeded shuffle\<close>

lemma mulberry32_next_range:
  "mulberry32_next seed = (r, seed') \<Longrightarrow> 0 \<le> r \<and> r < 4294967296"
proof -
  assume a: "mulberry32_next seed = (r, seed')"
  then obtain t where "r = js_shr t 0"
    unfolding mulberry32_next_def Let_def by auto
  then show ?thesis
    by (simp add: js_shr_def ToUint32_def)
qed

lemma bit_length_0: "bit_length 0 = 0"
  by (simp add: bit_length.simps [of 0])

lemma bit_length_pos: "0 < n \<Longrightarrow> bit_length n = Suc (bit_length (n div 2))"
  by (simp add: bit_length.simps [of n])

lemma bit_length_bounds: "0 < n \<Longrightarrow> 2 ^ (bit_length n - 1) \<le> n \<and> n < 2 ^ bit_length n"
proof (induction n rule: bit_length.induct)
  case (1 n)
  have b: "bit_length n = Suc (bit_length (n div 2))"
    using 1(2) by (rule bit_length_pos)
  show ?case
  proof (cases "n div 2 = 0")
    case True
    then have "n = 1" using 1(2) by (simp add: div_eq_0_iff)
    then show ?thesis
      using b True by (simp add: bit_length_0)
  next
    case False
    then have ih: "2 ^ (bit_length (n div 2) - 1) \<le> n div 2" "n div 2 < 2 ^ bit_length (n div 2)"
      using 1 by simp_all
    have pos: "0 < bit_length (n div 2)"
      using False by (simp add: bit_length_pos)
    have "2 ^ bit_length (n div 2) = 2 * (2::nat) ^ (bit_length (n div 2) - 1)"
      using pos by (cases "bit_length (n div 2)") simp_all
    then have "(2::nat) ^ bit_length (n div 2) \<le> n"
      using ih(1) by linarith
    moreover have "n < 2 * 2 ^ bit_length (n div 2)"
      using ih(2) by linarith
    ultimately show ?thesis
      by (simp add: b)
  qed
qed


text \<open>Rounding moves a non-negative integer up by at most the fraction \<open>2 ^ - 53\<close> of it.\<close>

lemma round_double_upper:
  assumes "0 \<le> v"
  shows "0 \<le> round_double v \<and> 9007199254740992 * round_double v \<le> 9007199254740993 * v"
proof (cases "v < 2 ^ 53")
  case True
  then show ?thesis using assms by (simp add: round_double_def)
next
  case False
  define n where "n = nat v"
  define L where "L = bit_length n"
  define q :: int where "q = 2 ^ (L - 53)"
  define m where "m = v div q"
  define rest where "rest = v mod q"
  define m' where "m' = (if 2 * rest < q \<or> (2 * rest = q \<and> even m) then m else m + 1)"
  have big: "(2::int) ^ 53 \<le> v" using False by simp
  have absv: "\<bar>v\<bar> = v" using assms by simp
  have sg: "sgn v = 1" using big by (simp add: sgn_if)
  have rd: "round_double v = m' * q"
    unfolding round_double_def Let_def absv sg m'_def rest_def m_def q_def L_def n_def
    using False by simp
  have npos: "0 < n" using big by (simp add: n_def)
  from bit_length_bounds [OF npos]
  have lo: "2 ^ (L - 1) \<le> n" and hi: "n < 2 ^ L" by (simp_all add: L_def)
  have vn: "v = int n" using assms by (simp add: n_def)
  have "int (2 ^ 53) \<le> int n" using big vn by simp
  then have "(2::nat) ^ 53 \<le> n" by (simp only: of_nat_le_iff)
  then have "(2::nat) ^ 53 < 2 ^ L" using hi by (rule le_less_trans)
  then have L: "53 < L" by (simp only: power_strict_increasing_iff [of 2] one_less_numeral_iff semiring_norm)
  have qpos: "0 < q" by (simp add: q_def)
  have "(2::int) ^ 52 * 2 ^ (L - 53) = 2 ^ (52 + (L - 53))"
    by (simp only: power_add)
  also have "52 + (L - 53) = L - 1" using L by simp
  finally have "2 ^ 52 * q = (2::int) ^ (L - 1)" by (simp only: q_def)
  also have "\<dots> = int (2 ^ (L - 1))" by simp
  also have "\<dots> \<le> v" unfolding vn using lo by (simp only: of_nat_le_iff)
  finally have qv: "2 ^ 52 * q \<le> v" .
  have dm: "v = q * m + rest" by (simp add: m_def rest_def)
  have r0: "0 \<le> rest" "rest < q" using qpos by (simp_all add: rest_def)
  have m0: "0 \<le> m" using assms qpos by (simp add: m_def pos_imp_zdiv_nonneg_iff)
  define R where "R = m' * q"
  have up: "2 * R \<le> 2 * v + q"
  proof (cases "2 * rest < q \<or> (2 * rest = q \<and> even m)")
    case True
    then have "m' = m" by (simp add: m'_def)
    then have "R = q * m" by (simp add: R_def mult.commute)
    then show ?thesis using dm r0 qpos by linarith
  next
    case False
    then have e: "m' = m + 1" by (simp add: m'_def)
    have "q \<le> 2 * rest" using False by linarith
    moreover have "R = q * m + q" by (simp add: R_def e algebra_simps)
    ultimately show ?thesis using dm by linarith
  qed
  have m'0: "0 \<le> m'" using m0 by (simp add: m'_def)
  have nonneg: "0 \<le> R" using m'0 qpos by (simp add: R_def)
  define A :: int where "A = 2 ^ 52"
  have A: "0 \<le> A" by (simp add: A_def)
  have b: "A * q \<le> v" using qv by (simp only: A_def)
  have "A * (2 * R) \<le> A * (2 * v + q)" using up A by (rule mult_left_mono)
  then have "2 * A * R \<le> 2 * A * v + A * q" by (simp add: algebra_simps)
  then have "2 * A * R \<le> 2 * A * v + v" using b by linarith
  then have "(2 * A) * R \<le> (2 * A + 1) * v" by (simp add: algebra_simps)
  moreover have "2 * A = 9007199254740992" by (simp add: A_def)
  ultimately have "9007199254740992 * R \<le> 9007199254740993 * v" by simp
  then show ?thesis using nonneg unfolding rd R_def by simp
qed


lemma random_index_le:
  assumes "0 \<le> r" "r < 4294967296"
  shows "random_index r i \<le> i"
proof -
  define N where "N = int i + 1"
  define P where "P = r * N"
  define R where "R = round_double P"
  define A :: int where "A = 9007199254740992"
  define B :: int where "B = 4294967296"
  have N: "0 < N" by (simp add: N_def)
  have P0: "0 \<le> P" using assms(1) N by (simp add: P_def)
  from round_double_upper [OF P0]
  have R: "A * R \<le> (A + 1) * P" by (simp add: R_def A_def)
  have A: "0 < A" by (simp add: A_def)
  have B: "0 < B" by (simp add: B_def)
  have "r \<le> B - 1" using assms(2) by (simp add: B_def)
  then have "r * N \<le> (B - 1) * N" using N by (intro mult_right_mono) simp_all
  then have "(A + 1) * P \<le> (A + 1) * ((B - 1) * N)"
    unfolding P_def using A by (intro mult_left_mono) simp_all
  also have "\<dots> = ((A + 1) * (B - 1)) * N" by (simp only: mult.assoc)
  also have "\<dots> < (A * B) * N"
  proof (rule mult_strict_right_mono)
    show "(A + 1) * (B - 1) < A * B" by (simp add: A_def B_def)
    show "0 < N" by (rule N)
  qed
  finally have "(A + 1) * P < (A * B) * N" .
  with R have "A * R < (A * B) * N" by (rule le_less_trans)
  then have "A * R < A * (B * N)" by (simp only: mult.assoc)
  then have lt: "R < B * N" using A by (simp only: mult_less_cancel_left_pos)
  have "B * (R div B) \<le> R"
    using mult_div_mod_eq [of B R] pos_mod_sign [of B R] B by linarith
  then have "B * (R div B) < B * N"
    using lt by (rule le_less_trans)
  then have "R div B < N" using B by (simp only: mult_less_cancel_left_pos)
  then show ?thesis
    by (simp add: random_index_def R_def P_def N_def B_def)
qed


text \<open>Two roundings that matter: a draw for an array of more than \<open>2 ^ 21\<close> elements, and
  the value of \<open>seed\<close> when the sum first passes \<open>2 ^ 53\<close> (both are ties, rounded to even).\<close>

lemma bit_length_54: "bit_length 9126831273803775 = 54 \<and> bit_length 9007201092538987 = 54"
  by (simp add: bit_length.simps)

lemma random_index_rounded: "random_index 3612047481 2526774 = 2125006"
  by (simp add: random_index_def round_double_def bit_length_54 Let_def)

lemma seed_rounded: "round_double 9007201092538987 = 9007201092538988"
  by (simp add: round_double_def bit_length_54 Let_def)

lemma mset_swap_list: "i < length xs \<Longrightarrow> j < length xs \<Longrightarrow> mset (swap xs i j) = mset xs"
  unfolding swap_def by (simp add: mset_swap)

lemma length_swap [simp]: "length (swap xs i j) = length xs"
  by (simp add: swap_def)

lemma shuffle_loop_mset: "i < length xs \<or> i = 0 \<Longrightarrow> mset (shuffle_loop xs i seed) = mset xs"
proof (induction xs i seed rule: shuffle_loop.induct)
  case (1 result seed)
  then show ?case by simp
next
  case (2 result i' seed)
  obtain r seed' where n: "mulberry32_next seed = (r, seed')"
    by (cases "mulberry32_next seed")
  from mulberry32_next_range [OF n] have "random_index r (Suc i') \<le> Suc i'"
    by (intro random_index_le) simp_all
  with "2.prems" have j: "random_index r (Suc i') < length result" by simp
  have "i' < length (swap result (Suc i') (random_index r (Suc i'))) \<or> i' = 0"
    using "2.prems" by simp
  from "2.IH" [OF n [symmetric] this]
  show ?case
    using "2.prems" j by (simp add: n mset_swap_list)
qed

lemma seededShuffle_mset: "mset (seededShuffle xs seed) = mset xs"
  unfolding seededShuffle_def by (rule shuffle_loop_mset) (cases xs; simp)

lemma length_shuffle_loop [simp]: "length (shuffle_loop xs i seed) = length xs"
proof (induction xs i seed rule: shuffle_loop.induct)
  case (1 result seed)
  then show ?case by simp
next
  case (2 result i' seed)
  obtain r seed' where n: "mulberry32_next seed = (r, seed')"
    by (cases "mulberry32_next seed")
  from "2.IH" [OF n [symmetric]] show ?case by (simp add: n)
qed

lemma shuffle_loop_store_eq:
  "r < length h \<Longrightarrow>
   shuffle_loop_store h r i seed = h[r := shuffle_loop (h ! r) i seed]"
proof (induction h r i seed rule: shuffle_loop_store.induct)
  case (1 h result seed)
  then show ?case by simp
next
  case (2 h result i' seed)
  obtain r seed' where n: "mulberry32_next seed = (r, seed')"
    by (cases "mulberry32_next seed")
  have "result < length (h[result := swap (h ! result) (Suc i') (random_index r (Suc i'))])"
    using "2.prems" by simp
  from "2.IH" [OF n [symmetric] this] "2.prems" show ?case
    by (simp add: n)
qed

lemma seededShuffle_store_eq:
  "seededShuffle_store h a seed = (h @ [seededShuffle (h ! a) seed], length h)"
  by (simp add: seededShuffle_store_def seededShuffle_def Let_def shuffle_loop_store_eq)

section \<open>The digests of the specification's scenarios\<close>

lemma md5_of_empty: "md5 (js []) = js ''d41d8cd98f00b204e9800998ecf8427e''"
  apply (rule md5_eval)
    apply (simp add: md5_run cong: prod.case_cong_weak map_weak_cong Let_weak_cong)
   apply (simp add: md5_run cong: prod.case_cong_weak map_weak_cong Let_weak_cong)
  apply (simp add: md5_run cong: prod.case_cong_weak map_weak_cong Let_weak_cong)
  done

lemma md5_of_password: "md5 (js ''password'') = js ''5f4dcc3b5aa765d61d8327deb882cf99''"
  apply (rule md5_eval)
    apply (simp add: md5_run cong: prod.case_cong_weak map_weak_cong Let_weak_cong)
   apply (simp add: md5_run cong: prod.case_cong_weak map_weak_cong Let_weak_cong)
  apply (simp add: md5_run cong: prod.case_cong_weak map_weak_cong Let_weak_cong)
  done

text \<open>
  Claim C8.  The digest of the empty string is \<open>d41d8cd98f00b204e9800998ecf8427e\<close> and the
  digest of \<open>password\<close> is \<open>5f4dcc3b5aa765d61d8327deb882cf99\<close>; both are returned as 32
  lowercase hexadecimal digits, two for each of the 16 bytes of the digest.
\<close>

theorem C8_md5_standard_digests:
  "md5 (js []) = js ''d41d8cd98f00b204e9800998ecf8427e'' \<and>
   md5 (js ''password'') = js ''5f4dcc3b5aa765d61d8327deb882cf99'' \<and>
   length (md5 (js [])) = 2 * 16 \<and> length (md5 (js ''password'')) = 2 * 16"
  by (simp add: md5_of_empty md5_of_password length_js)

section \<open>Digests of the words of the search scenarios\<close>

lemma md5_of_a: "md5 (js ''a'') = js ''0cc175b9c0f1b6a831c399e269772661''"
  apply (rule md5_eval)
    apply (simp add: md5_run cong: prod.case_cong_weak map_weak_cong Let_weak_cong)
   apply (simp add: md5_run cong: prod.case_cong_weak map_weak_cong Let_weak_cong)
  apply (simp add: md5_run cong: prod.case_cong_weak map_weak_cong Let_weak_cong)
  done

lemma md5_of_b: "md5 (js ''b'') = js ''92eb5ffee6ae2fec3ad71c777531578f''"
  apply (rule md5_eval)
    apply (simp add: md5_run cong: prod.case_cong_weak map_weak_cong Let_weak_cong)
   apply (simp add: md5_run cong: prod.case_cong_weak map_weak_cong Let_weak_cong)
  apply (simp add: md5_run cong: prod.case_cong_weak map_weak_cong Let_weak_cong)
  done

lemma md5_of_aa: "md5 (js ''aa'') = js ''4124bc0a9335c27f086f24ba207a4912''"
  apply (rule md5_eval)
    apply (simp add: md5_run cong: prod.case_cong_weak map_weak_cong Let_weak_cong)
   apply (simp add: md5_run cong: prod.case_cong_weak map_weak_cong Let_weak_cong)
  apply (simp add: md5_run cong: prod.case_cong_weak map_weak_cong Let_weak_cong)
  done

lemma md5_of_ab: "md5 (js ''ab'') = js ''187ef4436122d1cc2f40dc2b92f0eba0''"
  apply (rule md5_eval)
    apply (simp add: md5_run cong: prod.case_cong_weak map_weak_cong Let_weak_cong)
   apply (simp add: md5_run cong: prod.case_cong_weak map_weak_cong Let_weak_cong)
  apply (simp add: md5_run cong: prod.case_cong_weak map_weak_cong Let_weak_cong)
  done

lemma md5_of_foo: "md5 (js ''foo'') = js ''acbd18db4cc2f85cedef654fccc4a4d8''"
  apply (rule md5_eval)
    apply (simp add: md5_run cong: prod.case_cong_weak map_weak_cong Let_weak_cong)
   apply (simp add: md5_run cong: prod.case_cong_weak map_weak_cong Let_weak_cong)
  apply (simp add: md5_run cong: prod.case_cong_weak map_weak_cong Let_weak_cong)
  done

lemma md5_of_hunter2: "md5 (js ''hunter2'') = js ''2ab96390c7dbe3439de74d0c9b0b1767''"
  apply (rule md5_eval)
    apply (simp add: md5_run cong: prod.case_cong_weak map_weak_cong Let_weak_cong)
   apply (simp add: md5_run cong: prod.case_cong_weak map_weak_cong Let_weak_cong)
  apply (simp add: md5_run cong: prod.case_cong_weak map_weak_cong Let_weak_cong)
  done

section \<open>The search scenarios\<close>

lemma js_simps: "js [] = []" "js (c # cs) = of_char c # js cs"
  by (simp_all add: js_def)

lemma never_aborted_eq: "never_aborted = (\<lambda>k. False)"
  by (rule ext) (simp add: never_aborted_def)

lemma combos_ab: "calculateBruteForceCombinations (js ''ab'') 2 = 6"
  by (simp add: calculateBruteForceCombinations_def js_simps upt_rec)

lemma brute_force_ab:
  "generate (string_iterator (js ''ab'')) 2 [] 0 =
     [js ''a'', js ''aa'', js ''ab'', js ''b'', js ''ba'', js ''bb''] \<and>
   bruteForceMD5 (md5 (js ''b'')) (js ''ab'') 2 (\<lambda>k. False) = (Resolved (Some (js ''b'')), [(4, 6)])"
  by (simp add: bruteForceMD5_def processBatch_brute.simps brute_batch.simps generate.simps
      combos_ab [simplified js_simps, simplified] BATCH_SIZE_def
      md5_of_a [simplified js_simps, simplified] md5_of_b [simplified js_simps, simplified]
      md5_of_aa [simplified js_simps, simplified] md5_of_ab [simplified js_simps, simplified]
      js_simps is_high_surrogate_def is_low_surrogate_def
      cong: map_weak_cong batch_end.case_cong_weak list.case_cong_weak)

lemma dictionary_scenario:
  "crackMD5 (md5 (js ''hunter2'')) (js ''foo'' @ [0x0A] @ js ''hunter2'' @ [0x0A] @ js ''bar'')
     (\<lambda>k. False) = (Resolved (Some (js ''hunter2'')), [(2, 3)])"
  by (simp add: crackMD5_def split_lines_def processBatch_dict.simps crack_batch.simps
      BATCH_SIZE_def trim_def js_whitespace_def
      md5_of_foo [simplified js_simps, simplified] md5_of_hunter2 [simplified js_simps, simplified]
      js_simps Let_def
      cong: map_weak_cong option.case_cong_weak list.case_cong_weak prod.case_cong_weak)

text \<open>
  Claim C2, as stated, fails.  With charset \<open>ab\<close> and maximal length 2 the generator yields
  \<open>a, aa, ab, b, ba, bb\<close>: the candidate \<open>aa\<close> of length 2 comes before the candidate \<open>b\<close> of
  length 1, and a search for the digest of \<open>b\<close> finds it as the fourth candidate (the
  progress report at resolution is 4 of 6), not as the second.
\<close>

theorem C2_length_first_counterexample:
  "generate (string_iterator (js ''ab'')) 2 [] 0 =
     [js ''a'', js ''aa'', js ''ab'', js ''b'', js ''ba'', js ''bb''] \<and>
   bruteForceMD5 (md5 (js ''b'')) (js ''ab'') 2 never_aborted = (Resolved (Some (js ''b'')), [(4, 6)])"
  unfolding never_aborted_eq by (rule brute_force_ab)

text \<open>
  Claim C2, amended.  The brute-force search enumerates every non-empty word over the
  charset of length 1 up to \<open>maxLength\<close> exactly once, in dictionary order over the positions
  of the charset (depth first: a string is followed at once by all its extensions, so a
  proper prefix comes before its extensions and otherwise the first differing character
  decides).  A search that is not cancelled resolves with the first candidate in that order
  whose digest is the target.  For charset \<open>ab\<close>, maximal length 2 and the digest of \<open>b\<close> the
  result is \<open>b\<close>, found as the fourth candidate tried (\<open>a, aa, ab, b\<close>).
\<close>

theorem C2_brute_force_dictionary_order:
  "generate chars maxLength [] 0 =
     map (spell chars) (sorted_list_of_set (words_upto (length chars) maxLength)) \<and>
   fst (bruteForceMD5 targetHash charset maxLength never_aborted) =
     Resolved (find (\<lambda>w. md5 w = targetHash) (generate (string_iterator charset) maxLength [] 0)) \<and>
   bruteForceMD5 (md5 (js ''b'')) (js ''ab'') 2 never_aborted = (Resolved (Some (js ''b'')), [(4, 6)])"
proof (intro conjI)
  show "generate chars maxLength [] 0 =
      map (spell chars) (sorted_list_of_set (words_upto (length chars) maxLength))"
    by (rule generate_dictionary_order)
  show "fst (bruteForceMD5 targetHash charset maxLength never_aborted) =
      Resolved (find (\<lambda>w. md5 w = targetHash) (generate (string_iterator charset) maxLength [] 0))"
    unfolding bruteForceMD5_def never_aborted_eq by (rule processBatch_brute_find)
  show "bruteForceMD5 (md5 (js ''b'')) (js ''ab'') 2 never_aborted =
      (Resolved (Some (js ''b'')), [(4, 6)])"
    unfolding never_aborted_eq by (rule brute_force_ab [THEN conjunct2])
qed

text \<open>
  Claim C7.  A dictionary search that is not cancelled resolves with the first word of the
  word list, in source order and after trimming, whose digest equals the target (with
  \<open>null\<close> when there is none), and its last progress report counts the words up to and
  including that word.  For the digest of \<open>hunter2\<close> and the word list \<open>foo, hunter2, bar\<close>
  the result is \<open>hunter2\<close> with \<open>checked = 2\<close> of 3.
\<close>

theorem C7_dictionary_first_match:
  "fst (crackMD5 targetHash wordlist never_aborted) =
     Resolved (find (\<lambda>w. md5 w = targetHash)
       (map trim (filter (\<lambda>w. length w > 0) (split_lines wordlist)))) \<and>
   last (snd (crackMD5 targetHash wordlist never_aborted)) =
     (case find (\<lambda>w. md5 w = targetHash)
        (map trim (filter (\<lambda>w. length w > 0) (split_lines wordlist))) of
        Some w \<Rightarrow>
          (length (takeWhile (\<lambda>w. md5 w \<noteq> targetHash)
             (map trim (filter (\<lambda>w. length w > 0) (split_lines wordlist)))) + 1,
           length (filter (\<lambda>w. length w > 0) (split_lines wordlist)))
      | None \<Rightarrow>
          (length (filter (\<lambda>w. length w > 0) (split_lines wordlist)),
           length (filter (\<lambda>w. length w > 0) (split_lines wordlist)))) \<and>
   crackMD5 (md5 (js ''hunter2'')) (js ''foo'' @ [0x0A] @ js ''hunter2'' @ [0x0A] @ js ''bar'')
     never_aborted = (Resolved (Some (js ''hunter2'')), [(2, 3)])"
proof -
  let ?ws = "filter (\<lambda>w. length w > 0) (split_lines wordlist)"
  obtain out reps where r: "processBatch_dict targetHash ?ws (\<lambda>k. False) 0 0 [] = (out, reps)"
    by (cases "processBatch_dict targetHash ?ws (\<lambda>k. False) 0 0 []")
  have "0 \<le> length ?ws" by simp
  from processBatch_dict_find [OF this r]
  have A: "out = Resolved (find (\<lambda>w. md5 w = targetHash) (map trim (drop 0 ?ws)))"
    and B: "last reps =
     (case find (\<lambda>w. md5 w = targetHash) (map trim (drop 0 ?ws)) of
        None \<Rightarrow> (length ?ws, length ?ws)
      | Some w \<Rightarrow>
          (0 + length (takeWhile (\<lambda>w. md5 w \<noteq> targetHash) (map trim (drop 0 ?ws))) + 1,
           length ?ws))"
    by blast+
  have c: "crackMD5 targetHash wordlist never_aborted = (out, reps)"
    unfolding crackMD5_def never_aborted_eq by (rule r)
  show ?thesis
    unfolding c fst_conv snd_conv
  proof (intro conjI)
    show "out = Resolved (find (\<lambda>w. md5 w = targetHash) (map trim ?ws))"
      using A by (simp only: drop_0)
    show "last reps =
      (case find (\<lambda>w. md5 w = targetHash) (map trim ?ws) of
         None \<Rightarrow> (length ?ws, length ?ws)
       | Some w \<Rightarrow>
           (length (takeWhile (\<lambda>w. md5 w \<noteq> targetHash) (map trim ?ws)) + 1, length ?ws))"
      using B by (simp only: drop_0 add_0)
    show "crackMD5 (md5 (js ''hunter2''))
        (js ''foo'' @ [0x0A] @ js ''hunter2'' @ [0x0A] @ js ''bar'') never_aborted =
      (Resolved (Some (js ''hunter2'')), [(2, 3)])"
      unfolding never_aborted_eq by (rule dictionary_scenario)
  qed
qed

section \<open>The seeded shuffle is a deterministic permutation that leaves its argument alone\<close>

lemma seed_of_k: "stringToSeed (js ''k'') = 107"
  by (simp add: stringToSeed_def stringToSeed_step_def js_def js_num_defs)

lemma shuffle_4_107: "seededShuffle [0, 1, 2, 3 :: nat] 107 = [0, 2, 1, 3]"
  by (simp add: seededShuffle_def mulberry32_next_def round_double_def Math_imul_def js_num_defs
      Let_def random_index_def swap_def numeral_3_eq_3 cong: prod.case_cong_weak Let_weak_cong)

lemma upt_4: "[0 ..< 4] = [0, 1, 2, 3]"
  by (simp add: upt_rec)

text \<open>
  Claim C3.  Let two independent calls of \<open>seededShuffle\<close> be made with the seed
  \<open>stringToSeed k\<close>, each on an array holding \<open>0, \<dots>, n - 1\<close> (in any two stores, at any two
  references).  Then the array each call returns is a permutation of \<open>0, \<dots>, n - 1\<close> (the
  same multiset, every element once), and the two returned arrays are the same sequence: the
  result depends on \<open>n\<close> and \<open>k\<close> only.
\<close>

theorem C3_seededShuffle_permutation:
  assumes "array < length h" and "h ! array = [0 ..< n]"
    and "array' < length h'" and "h' ! array' = [0 ..< n]"
    and "seededShuffle_store h array (stringToSeed k) = (h1, result)"
    and "seededShuffle_store h' array' (stringToSeed k) = (h1', result')"
  shows "mset (h1 ! result) = mset [0 ..< n] \<and> set (h1 ! result) = {0 ..< n} \<and>
    distinct (h1 ! result) \<and> length (h1 ! result) = n \<and>
    h1' ! result' = h1 ! result \<and>
    h1 ! result = seededShuffle [0 ..< n] (stringToSeed k)"
proof -
  let ?p = "seededShuffle [0 ..< n] (stringToSeed k)"
  have r: "h1 ! result = ?p" "h1' ! result' = ?p"
    using assms by (auto simp: seededShuffle_store_eq)
  have m: "mset ?p = mset [0 ..< n]"
    by (rule seededShuffle_mset)
  then have "set ?p = set [0 ..< n]"
    by (rule mset_eq_setD)
  moreover have "distinct ?p"
    using m by (metis distinct_upt mset_eq_imp_distinct_iff)
  moreover have "length ?p = n"
    using m by (metis length_upt mset_eq_length minus_nat.diff_0)
  ultimately show ?thesis
    using m r by simp
qed

theorem C3_seededShuffle_permutation_witness:
  "(0::nat) < length [[0, 1, 2, 3 :: nat]] \<and> [[0, 1, 2, 3]] ! 0 = [0 ..< 4] \<and>
   (1::nat) < length [[], [0, 1, 2, 3 :: nat]] \<and> [[], [0, 1, 2, 3]] ! 1 = [0 ..< 4] \<and>
   seededShuffle_store [[0, 1, 2, 3 :: nat]] 0 (stringToSeed (js ''k'')) =
     ([[0, 1, 2, 3], [0, 2, 1, 3]], 1) \<and>
   seededShuffle_store [[], [0, 1, 2, 3 :: nat]] 1 (stringToSeed (js ''k'')) =
     ([[], [0, 1, 2, 3], [0, 2, 1, 3]], 2) \<and>
   mset ([[0, 1, 2, 3], [0, 2, 1, 3 :: nat]] ! 1) = mset [0 ..< 4] \<and>
   set ([[0, 1, 2, 3], [0, 2, 1, 3 :: nat]] ! 1) = {0 ..< 4} \<and>
   distinct ([[0, 1, 2, 3], [0, 2, 1, 3 :: nat]] ! 1) \<and>
   [[], [0, 1, 2, 3], [0, 2, 1, 3]] ! 2 = [[0, 1, 2, 3], [0, 2, 1, 3 :: nat]] ! 1"
proof -
  have a: "seededShuffle_store [[0, 1, 2, 3 :: nat]] 0 (stringToSeed (js ''k'')) =
      ([[0, 1, 2, 3], [0, 2, 1, 3]], 1)"
    by (simp add: seededShuffle_store_eq seed_of_k shuffle_4_107 [simplified])
  have b: "seededShuffle_store [[], [0, 1, 2, 3 :: nat]] 1 (stringToSeed (js ''k'')) =
      ([[], [0, 1, 2, 3], [0, 2, 1, 3]], 2)"
    by (simp add: seededShuffle_store_eq seed_of_k shuffle_4_107 [simplified])
  have c: "(0::nat) < length [[0, 1, 2, 3 :: nat]]" "[[0, 1, 2, 3 :: nat]] ! 0 = [0 ..< 4]"
    "(1::nat) < length [[], [0, 1, 2, 3 :: nat]]" "[[], [0, 1, 2, 3 :: nat]] ! 1 = [0 ..< 4]"
    by (simp_all add: upt_4)
  from C3_seededShuffle_permutation [OF c a b] a b c show ?thesis
    by blast
qed

text \<open>
  Claim C10.  \<open>seededShuffle\<close> does not mutate its argument: after the call the array passed
  in is unchanged, as is every other array that existed before the call; the permutation is
  returned in a newly allocated array, a reference different from the argument.
\<close>

theorem C10_seededShuffle_argument_unchanged:
  assumes "array < length h"
    and "seededShuffle_store h array seed = (h1, result)"
  shows "h1 ! array = h ! array \<and> take (length h) h1 = h \<and> result \<noteq> array \<and>
    result = length h \<and> h1 ! result = seededShuffle (h ! array) seed"
  using assms by (auto simp: seededShuffle_store_eq nth_append)

theorem C10_seededShuffle_argument_unchanged_witness:
  "(0::nat) < length [[0, 1, 2, 3 :: nat]] \<and>
   seededShuffle_store [[0, 1, 2, 3 :: nat]] 0 107 = ([[0, 1, 2, 3], [0, 2, 1, 3]], 1) \<and>
   [[0, 1, 2, 3], [0, 2, 1, 3]] ! 0 = [[0, 1, 2, 3 :: nat]] ! 0 \<and>
   take (length [[0, 1, 2, 3 :: nat]]) [[0, 1, 2, 3], [0, 2, 1, 3 :: nat]] = [[0, 1, 2, 3]] \<and>
   (1::nat) \<noteq> 0"
proof -
  have a: "seededShuffle_store [[0, 1, 2, 3 :: nat]] 0 107 = ([[0, 1, 2, 3], [0, 2, 1, 3]], 1)"
    by (simp add: seededShuffle_store_eq shuffle_4_107 [simplified])
  have c: "(0::nat) < length [[0, 1, 2, 3 :: nat]]"
    by simp
  from C10_seededShuffle_argument_unchanged [OF c a] a c show ?thesis
    by blast
qed

end
